theory Spec2Isabelle
  imports Main "HOL-Library.Word"
begin

section \<open>The parsed document tree\<close>

text \<open>
  The package works on the tree that \<^verbatim>\<open>golang.org/x/net/html\<close> builds. The traversal of
  \<^verbatim>\<open>internal.go\<close> only follows \<^verbatim>\<open>FirstChild\<close> and \<^verbatim>\<open>NextSibling\<close>, so a node is
  given by its address (the identity that Go compares with \<^verbatim>\<open>==\<close> on \<^verbatim>\<open>*html.Node\<close>) and
  the ordered list of its children: the list that the loop
  \<^verbatim>\<open>for c := n.FirstChild; c != nil; c = c.NextSibling\<close> runs through. A \<^verbatim>\<open>*html.Node\<close>
  is an \<open>html_Node option\<close>, with \<open>None\<close> for \<^verbatim>\<open>nil\<close>.
\<close>

datatype html_Node = HtmlNode (addr: nat) (children: "html_Node list")

text \<open>
  A filter is a \<^verbatim>\<open>func(node *html.Node) bool\<close> without side effects; a \<^verbatim>\<open>nil\<close> filter is
  \<open>None\<close>. A filter may depend on the address, so on a tree, where addresses are distinct,
  it may be any predicate on the nodes.
\<close>

type_synonym node_filter = "html_Node \<Rightarrow> bool"

record filterNodesConfig =
  Node :: "html_Node option"
  Filters :: "node_filter option list"
  Find :: bool

section \<open>internal.go\<close>

fun copyValidFilters :: "node_filter option list \<Rightarrow> node_filter option list" where
  "copyValidFilters [] = []"
| "copyValidFilters (f # input) =
     (if f \<noteq> None then f # copyValidFilters input else copyValidFilters input)"

text \<open>
  Lines 49 to 54: take filters off the front of the chain until one is not \<^verbatim>\<open>nil\<close> or the
  chain is used up. The result is the filter found (or \<open>None\<close>) and the rest of the chain.
\<close>

fun next_filter :: "node_filter option list \<Rightarrow> node_filter option \<times> node_filter option list" where
  "next_filter [] = (None, [])"
| "next_filter (f # fs) = (if f = None then next_filter fs else (f, fs))"

text \<open>
  Lines 81 to 90, the loop over \<open>j\<close> for one \<open>i\<close>: an entry at \<open>j\<close> that is the node at \<open>i\<close>
  is cut out of the slice and the same \<open>j\<close> is looked at again (\<^verbatim>\<open>j--\<close> then \<^verbatim>\<open>j++\<close>). The
  loop is entered with \<open>i < finish \<le> j\<close>, so both indices are in range when they are read.
\<close>

function remove_at_j :: "nat \<Rightarrow> nat \<Rightarrow> html_Node list \<Rightarrow> html_Node list" where
  "remove_at_j i j result =
     (if j < length result then
        (if addr (result ! i) \<noteq> addr (result ! j) then remove_at_j i (j + 1) result
         else remove_at_j i j (take j result @ drop (j + 1) result))
      else result)"
  by pat_completeness auto
termination
  by (relation "measure (\<lambda>(i, j, result). length result - j)") auto

text \<open>Lines 80 to 91: the loop over \<open>i\<close> from \<open>start\<close> up to \<open>finish\<close>.\<close>

function remove_found :: "nat \<Rightarrow> nat \<Rightarrow> html_Node list \<Rightarrow> html_Node list" where
  "remove_found i finish result =
     (if i < finish then remove_found (i + 1) finish (remove_at_j i finish result)
      else result)"
  by pat_completeness auto
termination
  by (relation "measure (\<lambda>(i, finish, result). finish - i)") auto

text \<open>
  The closure \<^verbatim>\<open>fn\<close> of \<^verbatim>\<open>filterNodes\<close> (lines 32 to 93). It appends to the captured slice
  \<^verbatim>\<open>result\<close>, which is passed in and returned here. \<open>fnd\<close> is \<^verbatim>\<open>config.Find\<close>, \<open>fs\<close> is
  \<^verbatim>\<open>config.Filters\<close>. \<open>result1\<close> is the slice after the anonymous function of lines 48 to 71.
\<close>

function fn :: "bool \<Rightarrow> node_filter option list \<Rightarrow> html_Node option \<Rightarrow> html_Node list
    \<Rightarrow> html_Node list" where
  "fn fnd fs None result = result"
| "fn fnd fs (Some (HtmlNode a cs)) result =
     (if fnd \<and> length result \<noteq> 0 then result
      else if length fs = 0 then result @ [HtmlNode a cs]
      else
        let start = length result;
            result1 =
              (case next_filter fs of (flt, rest) \<Rightarrow>
                 if flt \<noteq> None \<and> \<not> (the flt) (HtmlNode a cs) then result
                 else if length rest = 0 then fn fnd rest (Some (HtmlNode a cs)) result
                 else fold (\<lambda>c r. fn fnd rest (Some c) r) cs result);
            finish = length result1
        in fold (\<lambda>c r. remove_found start finish (fn fnd fs (Some c) r)) cs result1)"
  by pat_completeness auto
termination
  by (relation "measures [\<lambda>(fnd, fs, n, result). size_option size n,
                          \<lambda>(fnd, fs, n, result). length fs]")
     (auto simp: less_Suc_eq_le intro: size_list_estimation')

declare remove_at_j.simps [simp del] remove_found.simps [simp del]

definition filterNodes :: "filterNodesConfig \<Rightarrow> html_Node list" where
  "filterNodes config = fn (Find config) (copyValidFilters (Filters config)) (Node config) []"

text \<open>
  All nodes of the subtree below a node, the node itself first, in document order.
\<close>

fun nodes :: "html_Node \<Rightarrow> html_Node list" where
  "nodes (HtmlNode a cs) = HtmlNode a cs # concat (map nodes cs)"

section \<open>The handle type Node and its methods\<close>

text \<open>
  The methods of \<^verbatim>\<open>Node\<close> read the fields of the \<^verbatim>\<open>html.Node\<close> that \<^verbatim>\<open>Data\<close> points to.
  That type belongs to the parser, so the fields are taken as they are read, as functions
  of the pointer \<open>'p\<close>; a \<^verbatim>\<open>*html.Node\<close> is a \<open>'p option\<close>.
\<close>

record Attribute =
  Namespace :: string
  Key :: string
  Val :: string

record 'p html_fields =
  Parent :: "'p \<Rightarrow> 'p option"
  FirstChild :: "'p \<Rightarrow> 'p option"
  LastChild :: "'p \<Rightarrow> 'p option"
  PrevSibling :: "'p \<Rightarrow> 'p option"
  NextSibling :: "'p \<Rightarrow> 'p option"
  Attr :: "'p \<Rightarrow> Attribute list"

text \<open>
  \<^verbatim>\<open>Depth\<close> is a Go \<^verbatim>\<open>int\<close>, taken at 64 bits: \<^verbatim>\<open>++\<close>, \<^verbatim>\<open>--\<close> and \<^verbatim>\<open>-=\<close> wrap around.
  \<^verbatim>\<open>Match\<close> is a \<^verbatim>\<open>*Node\<close>.
\<close>

datatype 'p Node = MkNode (Data: "'p option") (Depth: "64 word") (Match: "'p Node option")


definition Node_Attr :: "'p html_fields \<Rightarrow> 'p Node \<Rightarrow> Attribute list" where
  "Node_Attr h n = (case Data n of None \<Rightarrow> [] | Some d \<Rightarrow> Attr h d)"

text \<open>
  \<^verbatim>\<open>getAttrVal\<close> is not among the source files; \<^verbatim>\<open>GetAttrVal\<close> takes it as a parameter.
\<close>

definition Node_GetAttrVal ::
  "(string \<Rightarrow> string \<Rightarrow> Attribute list \<Rightarrow> string) \<Rightarrow> 'p html_fields \<Rightarrow> 'p Node
    \<Rightarrow> string \<Rightarrow> string \<Rightarrow> Attribute list \<Rightarrow> string" where
  "Node_GetAttrVal getAttrVal h n namespace key attributes =
     getAttrVal namespace key (Node_Attr h n)"

definition Node_Parent :: "'p html_fields \<Rightarrow> 'p Node \<Rightarrow> 'p Node" where
  "Node_Parent h n =
     (let d = (case Data n of Some p \<Rightarrow> Parent h p | None \<Rightarrow> None)
      in MkNode d (Depth n - 1) (Match n))"

definition Node_FirstChild :: "'p html_fields \<Rightarrow> 'p Node \<Rightarrow> 'p Node" where
  "Node_FirstChild h n =
     (let d = (case Data n of Some p \<Rightarrow> FirstChild h p | None \<Rightarrow> None)
      in MkNode d (Depth n + 1) (Match n))"

definition Node_LastChild :: "'p html_fields \<Rightarrow> 'p Node \<Rightarrow> 'p Node" where
  "Node_LastChild h n =
     (let d = (case Data n of Some p \<Rightarrow> LastChild h p | None \<Rightarrow> None)
      in MkNode d (Depth n + 1) (Match n))"

definition Node_PrevSibling :: "'p html_fields \<Rightarrow> 'p Node \<Rightarrow> 'p Node" where
  "Node_PrevSibling h n =
     (let d = (case Data n of Some p \<Rightarrow> PrevSibling h p | None \<Rightarrow> None)
      in MkNode d (Depth n) (Match n))"

definition Node_NextSibling :: "'p html_fields \<Rightarrow> 'p Node \<Rightarrow> 'p Node" where
  "Node_NextSibling h n =
     (let d = (case Data n of Some p \<Rightarrow> NextSibling h p | None \<Rightarrow> None)
      in MkNode d (Depth n) (Match n))"

definition Node_MatchDepth :: "'p Node \<Rightarrow> 64 word" where
  "Node_MatchDepth n =
     (let d = Depth n
      in case Match n of Some m \<Rightarrow> d - Depth m | None \<Rightarrow> d)"






section \<open>Notions used to state the properties\<close>

text \<open>
  The result of a collect-all traversal from a present node with a chain that has no
  \<^verbatim>\<open>nil\<close> filter, and the part of it that lines 48 to 71 append (the node itself when
  the chain ends at it, the results of the rest of the chain on its children otherwise).
\<close>

definition collect_all :: "node_filter list \<Rightarrow> html_Node \<Rightarrow> html_Node list" where
  "collect_all ps n = fn False (map Some ps) (Some n) []"

definition first_step :: "node_filter \<Rightarrow> node_filter list \<Rightarrow> html_Node \<Rightarrow> html_Node list" where
  "first_step p ps n =
     (if \<not> p n then [] else if ps = [] then [n]
      else concat (map (collect_all ps) (children n)))"

text \<open>
  The nodes strictly below a node, and a chain of matches for a chain of filters
  \<open>[p1, ..., pk]\<close>: nodes \<open>[m1, ..., mk]\<close> where each \<open>mi\<close> satisfies \<open>pi\<close> and each next
  one lies strictly below the one before.
\<close>

definition proper_descendants :: "html_Node \<Rightarrow> html_Node list" where
  "proper_descendants n = concat (map nodes (children n))"

fun is_chain :: "node_filter list \<Rightarrow> html_Node list \<Rightarrow> bool" where
  "is_chain [] ms = (ms = [])"
| "is_chain (p # ps) [] = False"
| "is_chain (p # ps) (m # ms) =
     (p m \<and> (case ms of [] \<Rightarrow> True | m' # _ \<Rightarrow> m' \<in> set (proper_descendants m))
      \<and> is_chain ps ms)"

text \<open>
  The nodes that line 42 appends during a collect-all traversal, in the order in which
  they are appended: \<^verbatim>\<open>fn\<close> with \<^verbatim>\<open>Find\<close> false and without the removal of lines 80
  to 91. (With \<^verbatim>\<open>Find\<close> false no branch of \<^verbatim>\<open>fn\<close> reads \<^verbatim>\<open>result\<close>, so the removal
  changes no later append.) This is the order of discovery.
\<close>

function appended :: "node_filter option list \<Rightarrow> html_Node option \<Rightarrow> html_Node list
    \<Rightarrow> html_Node list" where
  "appended fs None log = log"
| "appended fs (Some (HtmlNode a cs)) log =
     (if length fs = 0 then log @ [HtmlNode a cs]
      else
        let log1 =
              (case next_filter fs of (flt, rest) \<Rightarrow>
                 if flt \<noteq> None \<and> \<not> (the flt) (HtmlNode a cs) then log
                 else if length rest = 0 then appended rest (Some (HtmlNode a cs)) log
                 else fold (\<lambda>c r. appended rest (Some c) r) cs log)
        in fold (\<lambda>c r. appended fs (Some c) r) cs log1)"
  by pat_completeness auto
termination
  by (relation "measures [\<lambda>(fs, n, log). size_option size n, \<lambda>(fs, n, log). length fs]")
     (auto simp: less_Suc_eq_le intro: size_list_estimation')

declare appended.simps [simp del]

definition discovered :: "node_filter list \<Rightarrow> html_Node \<Rightarrow> html_Node list" where
  "discovered ps n = appended (map Some ps) (Some n) []"

definition first_found :: "node_filter \<Rightarrow> node_filter list \<Rightarrow> html_Node \<Rightarrow> html_Node list" where
  "first_found p ps n =
     (if \<not> p n then [] else if ps = [] then [n]
      else concat (map (discovered ps) (children n)))"

text \<open>A list with every later occurrence of an address left out.\<close>

fun first_occurrences :: "html_Node list \<Rightarrow> html_Node list" where
  "first_occurrences [] = []"
| "first_occurrences (x # xs) = x # filter (\<lambda>y. addr y \<noteq> addr x) (first_occurrences xs)"

text \<open>
  Some chain of matches for the filters starts in the subtree of \<open>t\<close> and ends at \<open>n\<close>.
\<close>

definition chain_to :: "node_filter list \<Rightarrow> html_Node \<Rightarrow> html_Node \<Rightarrow> bool" where
  "chain_to ps t n = (\<exists>ms. is_chain ps ms \<and> hd ms \<in> set (nodes t) \<and> last ms = n)"

section \<open>Lemmas on the traversal\<close>

subsection \<open>The removal loops\<close>

text \<open>
  The loop over \<open>j\<close> leaves the entries before \<open>j\<close> and drops, from \<open>j\<close> on, the entries
  with the address of entry \<open>i\<close>; the loop over \<open>i\<close> drops, from \<open>finish\<close> on, the entries
  whose address occurs between \<open>i\<close> and \<open>finish\<close>.
\<close>

lemma remove_at_j_eq:
  "i < j \<Longrightarrow> remove_at_j i j result =
     take j result @ filter (\<lambda>x. addr x \<noteq> addr (result ! i)) (drop j result)"
proof (induction i j result rule: remove_at_j.induct)
  case (1 i j result)
  show ?case
  proof (cases "j < length result")
    case False
    then show ?thesis by (subst remove_at_j.simps) simp
  next
    case inr: True
    show ?thesis
    proof (cases "addr (result ! i) \<noteq> addr (result ! j)")
      case True
      have "remove_at_j i j result = remove_at_j i (j + 1) result"
        using inr True by (subst remove_at_j.simps) simp
      also have "\<dots> = take (j + 1) result
          @ filter (\<lambda>x. addr x \<noteq> addr (result ! i)) (drop (j + 1) result)"
        using "1.IH"(1) [OF inr True] "1.prems" by simp
      also have "\<dots> = take j result @ filter (\<lambda>x. addr x \<noteq> addr (result ! i)) (drop j result)"
        using inr True by (simp add: take_Suc_conv_app_nth Cons_nth_drop_Suc [symmetric])
      finally show ?thesis .
    next
      case False
      let ?r = "take j result @ drop (j + 1) result"
      have ri: "?r ! i = result ! i"
        using "1.prems" inr by (simp add: nth_append)
      have tk: "take j ?r = take j result" using inr by simp
      have dr: "drop j ?r = drop (j + 1) result" using inr by simp
      have "remove_at_j i j result = remove_at_j i j ?r"
        using inr False by (subst remove_at_j.simps) simp
      also have "\<dots> = take j ?r @ filter (\<lambda>x. addr x \<noteq> addr (?r ! i)) (drop j ?r)"
        using "1.IH"(2) [OF inr] False "1.prems" by simp
      also have "\<dots> = take j result @ filter (\<lambda>x. addr x \<noteq> addr (result ! i)) (drop (j + 1) result)"
        by (simp only: ri tk dr)
      also have "\<dots> = take j result @ filter (\<lambda>x. addr x \<noteq> addr (result ! i)) (drop j result)"
        using inr False by (simp add: Cons_nth_drop_Suc [symmetric])
      finally show ?thesis .
    qed
  qed
qed

lemma remove_found_eq:
  "i \<le> finish \<Longrightarrow> finish \<le> length result \<Longrightarrow>
   remove_found i finish result =
     take finish result
     @ filter (\<lambda>x. addr x \<notin> addr ` set (drop i (take finish result))) (drop finish result)"
proof (induction i finish result rule: remove_found.induct)
  case (1 i finish result)
  show ?case
  proof (cases "i < finish")
    case False
    then show ?thesis using "1.prems" by (subst remove_found.simps) simp
  next
    case True
    let ?r = "remove_at_j i finish result"
    have r: "?r = take finish result
        @ filter (\<lambda>x. addr x \<noteq> addr (result ! i)) (drop finish result)"
      using True by (rule remove_at_j_eq)
    have len: "finish \<le> length ?r" using "1.prems" by (simp add: r)
    have tk: "take finish ?r = take finish result" using "1.prems" by (simp add: r)
    have dr: "drop finish ?r = filter (\<lambda>x. addr x \<noteq> addr (result ! i)) (drop finish result)"
      using "1.prems" by (simp add: r)
    have di: "drop i (take finish result) = result ! i # drop (i + 1) (take finish result)"
      using True "1.prems" by (simp add: Cons_nth_drop_Suc [symmetric])
    have "remove_found i finish result = remove_found (i + 1) finish ?r"
      using True by (subst remove_found.simps) simp
    also have "\<dots> = take finish ?r
        @ filter (\<lambda>x. addr x \<notin> addr ` set (drop (i + 1) (take finish ?r))) (drop finish ?r)"
      using "1.IH" [OF True] True len by simp
    also have "\<dots> = take finish result
        @ filter (\<lambda>x. addr x \<notin> addr ` set (drop i (take finish result))) (drop finish result)"
      unfolding tk dr di by (auto intro: filter_cong)
    finally show ?thesis .
  qed
qed

subsection \<open>Collect-all mode\<close>

text \<open>
  With \<^verbatim>\<open>Find\<close> false \<^verbatim>\<open>fn\<close> appends to \<^verbatim>\<open>result\<close> a sequence that does not depend on
  \<^verbatim>\<open>result\<close>: the first step, then what the children return for the whole chain, without
  the addresses of the first step.
\<close>

lemma fn_nil_chain:
  "fn fnd [] (Some n) res = (if fnd \<and> res \<noteq> [] then res else res @ [n])"
  by (cases n) (simp del: fn.simps add: fn.simps(2) [where fs = "[]"])

lemma fn_cons_chain:
  "fn fnd (Some p # fs) (Some n) res =
     (if fnd \<and> res \<noteq> [] then res
      else
        let res1 = (if \<not> p n then res
                    else if fs = [] then fn fnd [] (Some n) res
                    else fold (\<lambda>c. fn fnd fs (Some c)) (children n) res)
        in fold (\<lambda>c r. remove_found (length res) (length res1) (fn fnd (Some p # fs) (Some c) r))
             (children n) res1)"
proof (cases n)
  case (HtmlNode a cs)
  show ?thesis
    unfolding HtmlNode by (subst fn.simps(2)) (simp add: Let_def del: fn.simps)
qed

lemma fold_append_results:
  assumes "\<And>c r. c \<in> set cs \<Longrightarrow> g c r = r @ g c []"
  shows "fold g cs res = res @ concat (map (\<lambda>c. g c []) cs)"
  using assms
proof (induction cs arbitrary: res)
  case Nil
  then show ?case by simp
next
  case (Cons c cs)
  have "fold g (c # cs) res = fold g cs (g c res)" by simp
  also have "\<dots> = g c res @ concat (map (\<lambda>c. g c []) cs)"
    by (rule Cons.IH, rule Cons.prems, simp)
  also have "g c res = res @ g c []" by (rule Cons.prems) simp
  finally show ?case by simp
qed

lemma remove_found_append:
  "remove_found (length res) (length res + length A) (res @ A @ X)
     = res @ A @ filter (\<lambda>x. addr x \<notin> addr ` set A) X"
  by (subst remove_found_eq) simp_all

lemma fold_remove_found:
  assumes "\<And>c r. c \<in> set cs \<Longrightarrow> g c r = r @ g c []"
  shows "fold (\<lambda>c r. remove_found (length res) (length res + length A) (g c r)) cs
           (res @ A @ filter (\<lambda>x. addr x \<notin> addr ` set A) X)
         = res @ A @ filter (\<lambda>x. addr x \<notin> addr ` set A) (X @ concat (map (\<lambda>c. g c []) cs))"
  using assms
proof (induction cs arbitrary: X)
  case Nil
  then show ?case by simp
next
  case (Cons c cs)
  let ?F = "filter (\<lambda>x. addr x \<notin> addr ` set A)"
  have g: "g c (res @ A @ ?F X) = res @ A @ (?F X @ g c [])"
    using Cons.prems [of c "res @ A @ ?F X"] by simp
  have "remove_found (length res) (length res + length A) (g c (res @ A @ ?F X))
      = res @ A @ ?F (?F X @ g c [])"
    unfolding g by (rule remove_found_append)
  also have "\<dots> = res @ A @ ?F (X @ g c [])" by simp
  finally have step: "remove_found (length res) (length res + length A) (g c (res @ A @ ?F X))
      = res @ A @ ?F (X @ g c [])" .
  have "fold (\<lambda>c r. remove_found (length res) (length res + length A) (g c r)) (c # cs)
           (res @ A @ ?F X)
      = fold (\<lambda>c r. remove_found (length res) (length res + length A) (g c r)) cs
           (res @ A @ ?F (X @ g c []))"
    by (simp add: step del: filter_append)
  also have "\<dots> = res @ A @ ?F ((X @ g c []) @ concat (map (\<lambda>c. g c []) cs))"
    by (rule Cons.IH, rule Cons.prems, simp)
  finally show ?case by simp
qed

lemma collect_all_fun: "collect_all ps = (\<lambda>c. fn False (map Some ps) (Some c) [])"
  by (rule ext) (simp add: collect_all_def)

lemma fn_collect_step:
  assumes "\<And>c qs r. c \<in> set (children n) \<Longrightarrow>
             fn False (map Some qs) (Some c) r = r @ fn False (map Some qs) (Some c) []"
  shows "fn False (Some p # map Some ps) (Some n) res =
           res @ first_step p ps n
           @ filter (\<lambda>x. addr x \<notin> addr ` set (first_step p ps n))
               (concat (map (collect_all (p # ps)) (children n)))"
proof -
  let ?A = "first_step p ps n"
  let ?res1 = "if \<not> p n then res
               else if map Some ps = [] then fn False [] (Some n) res
               else fold (\<lambda>c. fn False (map Some ps) (Some c)) (children n) res"
  have "fold (\<lambda>c. fn False (map Some ps) (Some c)) (children n) res
      = res @ concat (map (\<lambda>c. fn False (map Some ps) (Some c) []) (children n))"
    by (rule fold_append_results) (rule assms)
  then have res1: "?res1 = res @ ?A"
    by (simp add: first_step_def fn_nil_chain collect_all_fun del: fn.simps)
  have kids: "\<And>c r. c \<in> set (children n) \<Longrightarrow>
      fn False (Some p # map Some ps) (Some c) r
        = r @ fn False (Some p # map Some ps) (Some c) []"
    by (rule assms [of _ "p # ps", unfolded list.map])
  have "fn False (Some p # map Some ps) (Some n) res
      = fold (\<lambda>c r. remove_found (length res) (length ?res1)
                 (fn False (Some p # map Some ps) (Some c) r)) (children n) ?res1"
    by (subst fn_cons_chain) (simp add: Let_def del: fn.simps)
  also have "\<dots> = fold (\<lambda>c r. remove_found (length res) (length res + length ?A)
                 (fn False (Some p # map Some ps) (Some c) r)) (children n)
                 (res @ ?A @ filter (\<lambda>x. addr x \<notin> addr ` set ?A) [])"
    by (simp only: res1 length_append filter.simps append_Nil2)
  also have "\<dots> = res @ ?A @ filter (\<lambda>x. addr x \<notin> addr ` set ?A)
        ([] @ concat (map (\<lambda>c. fn False (Some p # map Some ps) (Some c) []) (children n)))"
    by (rule fold_remove_found) (rule kids)
  finally show ?thesis by (simp add: collect_all_fun del: fn.simps)
qed

lemma fn_collect_append:
  "fn False (map Some ps) (Some n) res = res @ fn False (map Some ps) (Some n) []"
proof (induction n arbitrary: ps res)
  case (HtmlNode a cs)
  show ?case
  proof (cases ps)
    case Nil
    then show ?thesis by (simp add: fn_nil_chain del: fn.simps)
  next
    case (Cons p ps')
    have kids: "\<And>c qs r. c \<in> set (children (HtmlNode a cs)) \<Longrightarrow>
             fn False (map Some qs) (Some c) r = r @ fn False (map Some qs) (Some c) []"
      by (rule HtmlNode.IH) simp
    have s: "\<And>res. fn False (Some p # map Some ps') (Some (HtmlNode a cs)) res =
           res @ first_step p ps' (HtmlNode a cs)
           @ filter (\<lambda>x. addr x \<notin> addr ` set (first_step p ps' (HtmlNode a cs)))
               (concat (map (collect_all (p # ps')) (children (HtmlNode a cs))))"
      by (rule fn_collect_step) (rule kids)
    show ?thesis
      unfolding Cons list.map by (simp only: s append_Nil)
  qed
qed

lemma collect_all_Nil: "collect_all [] n = [n]"
  by (simp add: collect_all_def fn_nil_chain del: fn.simps)

lemma collect_all_Cons:
  "collect_all (p # ps) n =
     first_step p ps n
     @ filter (\<lambda>x. addr x \<notin> addr ` set (first_step p ps n))
         (concat (map (collect_all (p # ps)) (children n)))"
proof -
  have "fn False (Some p # map Some ps) (Some n) [] =
           [] @ first_step p ps n
           @ filter (\<lambda>x. addr x \<notin> addr ` set (first_step p ps n))
               (concat (map (collect_all (p # ps)) (children n)))"
    by (rule fn_collect_step) (rule fn_collect_append)
  then show ?thesis
    unfolding collect_all_def [of "p # ps" n] list.map by simp
qed

subsection \<open>Find mode\<close>

text \<open>
  With \<^verbatim>\<open>Find\<close> true \<^verbatim>\<open>fn\<close> leaves a non-empty \<^verbatim>\<open>result\<close> as it is, and appends to
  an empty one the first node of the collect-all result.
\<close>

lemma take1_append: "take (Suc 0) (xs @ ys) = (if xs = [] then take (Suc 0) ys else take (Suc 0) xs)"
  by (cases xs) simp_all

lemma fold_first_result:
  assumes "\<And>c r. c \<in> set cs \<Longrightarrow> g c r = (if r \<noteq> [] then r else take 1 (h c))"
  shows "fold g cs r = (if r \<noteq> [] then r else take 1 (concat (map h cs)))"
  using assms
proof (induction cs arbitrary: r)
  case Nil
  show ?case by simp
next
  case (Cons c cs)
  have gc: "g c r = (if r \<noteq> [] then r else take 1 (h c))"
    by (rule Cons.prems) simp
  have "fold g (c # cs) r = fold g cs (g c r)" by simp
  also have "\<dots> = (if g c r \<noteq> [] then g c r else take 1 (concat (map h cs)))"
    by (rule Cons.IH, rule Cons.prems, simp)
  finally show ?case
    unfolding gc by (cases "h c") (simp_all add: take1_append)
qed

lemma remove_found_zero: "remove_found 0 0 r = r"
  by (subst remove_found.simps) simp

lemma remove_found_single: "remove_found 0 (Suc 0) [x] = [x]"
  by (subst remove_found_eq) simp_all

lemma fold_keeps_single:
  assumes "\<And>c. c \<in> set cs \<Longrightarrow> g c [x] = [x]"
  shows "fold (\<lambda>c r. remove_found 0 (Suc 0) (g c r)) cs [x] = [x]"
  using assms by (induction cs) (simp_all add: remove_found_single)

lemma fn_find_step:
  assumes "\<And>c qs r. c \<in> set (children n) \<Longrightarrow>
     fn True (map Some qs) (Some c) r = (if r \<noteq> [] then r else take 1 (collect_all qs c))"
  shows "fn True (Some p # map Some ps) (Some n) [] = take 1 (collect_all (p # ps) n)"
proof -
  let ?A = "first_step p ps n"
  let ?fs = "Some p # map Some ps"
  let ?res1 = "if \<not> p n then []
               else if map Some ps = [] then fn True [] (Some n) []
               else fold (\<lambda>c. fn True (map Some ps) (Some c)) (children n) []"
  have kids: "\<And>c r. c \<in> set (children n) \<Longrightarrow>
      fn True ?fs (Some c) r = (if r \<noteq> [] then r else take 1 (collect_all (p # ps) c))"
    by (rule assms [of _ "p # ps", unfolded list.map])
  have "fold (\<lambda>c. fn True (map Some ps) (Some c)) (children n) []
      = (if [] \<noteq> ([] :: html_Node list) then []
         else take 1 (concat (map (collect_all ps) (children n))))"
    by (rule fold_first_result) (rule assms)
  then have res1: "?res1 = take 1 ?A"
    by (simp add: first_step_def fn_nil_chain del: fn.simps)
  have unfold: "fn True ?fs (Some n) []
      = fold (\<lambda>c r. remove_found 0 (length (take 1 ?A)) (fn True ?fs (Some c) r))
          (children n) (take 1 ?A)"
    by (subst fn_cons_chain) (simp add: Let_def res1 del: fn.simps)
  show ?thesis
  proof (cases ?A)
    case Nil
    have "fn True ?fs (Some n) [] = fold (\<lambda>c. fn True ?fs (Some c)) (children n) []"
      unfolding unfold by (simp add: Nil remove_found_zero del: fn.simps)
    also have "\<dots> = (if [] \<noteq> ([] :: html_Node list) then []
         else take 1 (concat (map (collect_all (p # ps)) (children n))))"
      by (rule fold_first_result) (rule kids)
    finally show ?thesis
      by (subst collect_all_Cons) (simp add: Nil)
  next
    case (Cons x xs)
    have "fn True ?fs (Some n) []
        = fold (\<lambda>c r. remove_found 0 (Suc 0) (fn True ?fs (Some c) r)) (children n) [x]"
      unfolding unfold by (simp add: Cons del: fn.simps)
    also have "\<dots> = [x]"
      by (rule fold_keeps_single) (simp add: kids del: fn.simps)
    finally show ?thesis
      by (subst collect_all_Cons) (simp add: Cons)
  qed
qed

lemma fn_find:
  "fn True (map Some ps) (Some n) res = (if res \<noteq> [] then res else take 1 (collect_all ps n))"
proof (induction n arbitrary: ps res)
  case (HtmlNode a cs)
  show ?case
  proof (cases "res = []")
    case False
    then show ?thesis by (cases ps) (simp_all add: fn_nil_chain fn_cons_chain del: fn.simps)
  next
    case True
    show ?thesis
    proof (cases ps)
      case Nil
      then show ?thesis by (simp add: True fn_nil_chain collect_all_Nil del: fn.simps)
    next
      case (Cons p ps')
      have "fn True (Some p # map Some ps') (Some (HtmlNode a cs)) []
          = take 1 (collect_all (p # ps') (HtmlNode a cs))"
        by (rule fn_find_step) (rule HtmlNode.IH, simp)
      then show ?thesis by (simp add: True Cons del: fn.simps)
    qed
  qed
qed

subsection \<open>Nodes of a tree and distinct results\<close>

lemma nodes_eq: "nodes n = n # concat (map nodes (children n))"
  by (cases n) simp

lemma set_nodes: "set (nodes n) = insert n (\<Union>c \<in> set (children n). set (nodes c))"
  by (subst nodes_eq) simp

lemma self_in_nodes: "n \<in> set (nodes n)"
  by (subst nodes_eq) simp

lemma child_nodes_subset: "c \<in> set (children n) \<Longrightarrow> set (nodes c) \<subseteq> set (nodes n)"
  by (auto simp: set_nodes [of n])

lemma distinct_child:
  assumes "distinct (map addr (nodes n))" "c \<in> set (children n)"
  shows "distinct (map addr (nodes c))"
proof -
  from assms(1) have "distinct (concat (map (map addr \<circ> nodes) (children n)))"
    by (subst (asm) nodes_eq) (simp add: map_concat)
  then have "distinct ((map addr \<circ> nodes) c)"
    using assms(2) by (auto dest!: distinct_concat_iff [THEN iffD1])
  then show ?thesis by simp
qed

lemma addr_inj:
  assumes "distinct (map addr (nodes n))" "x \<in> set (nodes n)" "y \<in> set (nodes n)"
    "addr x = addr y"
  shows "x = y"
  using assms by (meson distinct_map inj_onD)

lemma collect_all_subset: "set (collect_all ps n) \<subseteq> set (nodes n)"
proof (induction n arbitrary: ps)
  case (HtmlNode a cs)
  show ?case
  proof (cases ps)
    case Nil
    then show ?thesis by (simp add: collect_all_Nil)
  next
    case (Cons p ps')
    have "set (first_step p ps' (HtmlNode a cs)) \<subseteq> set (nodes (HtmlNode a cs))"
      using HtmlNode.IH by (auto simp: first_step_def)
    moreover have "set (concat (map (collect_all (p # ps')) cs)) \<subseteq> set (nodes (HtmlNode a cs))"
      using HtmlNode.IH by auto
    ultimately show ?thesis
      unfolding Cons by (subst collect_all_Cons) auto
  qed
qed

lemma distinct_concat_children:
  assumes "distinct (map addr (concat (map nodes cs)))"
    and "\<And>c. c \<in> set cs \<Longrightarrow> set (g c) \<subseteq> set (nodes c)"
    and "\<And>c. c \<in> set cs \<Longrightarrow> distinct (map addr (g c))"
  shows "distinct (map addr (concat (map g cs)))"
  using assms
proof (induction cs)
  case Nil
  show ?case by simp
next
  case (Cons c cs)
  have d: "distinct (map addr (nodes c))" "distinct (map addr (concat (map nodes cs)))"
    and disj: "addr ` set (nodes c) \<inter> addr ` set (concat (map nodes cs)) = {}"
    using Cons.prems(1) by simp_all
  have rest: "distinct (map addr (concat (map g cs)))"
    by (rule Cons.IH) (use d Cons.prems in simp_all)
  have sub: "set (concat (map g cs)) \<subseteq> set (concat (map nodes cs))"
    using Cons.prems(2) by fastforce
  have "set (g c) \<subseteq> set (nodes c)" by (rule Cons.prems(2)) simp
  with sub disj have "addr ` set (g c) \<inter> addr ` set (concat (map g cs)) = {}"
    by blast
  moreover have "distinct (map addr (g c))" by (rule Cons.prems(3)) simp
  ultimately show ?case using rest by simp
qed

lemma disjoint_filtered: "f ` set xs \<inter> f ` set (filter (\<lambda>x. f x \<notin> f ` set xs) ys) = {}"
  by (induction ys) auto

lemma distinct_children:
  "distinct (map addr (nodes n)) \<Longrightarrow> distinct (map addr (concat (map nodes (children n))))"
  by (subst (asm) nodes_eq) simp

lemma collect_all_distinct:
  "distinct (map addr (nodes n)) \<Longrightarrow> distinct (map addr (collect_all ps n))"
proof (induction n arbitrary: ps)
  case (HtmlNode a cs)
  let ?n = "HtmlNode a cs"
  have kids: "distinct (map addr (concat (map nodes cs)))"
    using distinct_children [OF HtmlNode.prems] by simp
  have kid: "\<And>c qs. c \<in> set cs \<Longrightarrow> distinct (map addr (collect_all qs c))"
    by (rule HtmlNode.IH, assumption, rule distinct_child [OF HtmlNode.prems]) simp
  show ?case
  proof (cases ps)
    case Nil
    then show ?thesis by (simp add: collect_all_Nil)
  next
    case (Cons p ps')
    let ?A = "first_step p ps' ?n"
    let ?F = "\<lambda>x. addr x \<notin> addr ` set ?A"
    have "distinct (map addr (concat (map (collect_all ps') cs)))"
      by (rule distinct_concat_children [OF kids]) (simp_all add: collect_all_subset kid)
    then have A: "distinct (map addr ?A)"
      by (simp add: first_step_def)
    have "distinct (map addr (concat (map (collect_all (p # ps')) cs)))"
      by (rule distinct_concat_children [OF kids]) (simp_all add: collect_all_subset kid)
    then have B: "distinct (map addr (filter ?F (concat (map (collect_all (p # ps')) cs))))"
      by (rule distinct_map_filter)
    have "distinct (map addr (?A @ filter ?F (concat (map (collect_all (p # ps')) cs))))"
    proof -
      have "addr ` set ?A \<inter> addr ` set (filter ?F (concat (map (collect_all (p # ps')) cs))) = {}"
        by (rule disjoint_filtered)
      with A B show ?thesis by simp
    qed
    then show ?thesis
      unfolding Cons by (subst collect_all_Cons) simp
  qed
qed

lemma copyValidFilters_valid:
  "copyValidFilters fs = map Some (map the (copyValidFilters fs))"
  by (induction fs) auto

lemma filterNodes_collect_all:
  "copyValidFilters fs = map Some ps \<Longrightarrow>
   filterNodes \<lparr>Node = Some n, Filters = fs, Find = False\<rparr> = collect_all ps n"
  by (simp add: filterNodes_def collect_all_def del: fn.simps)

subsection \<open>The order of discovery\<close>

lemma appended_nil_chain: "appended [] (Some n) log = log @ [n]"
  by (cases n) (simp add: appended.simps)

lemma appended_cons_chain:
  "appended (Some p # fs) (Some n) log =
     fold (\<lambda>c. appended (Some p # fs) (Some c)) (children n)
       (if \<not> p n then log
        else if fs = [] then appended [] (Some n) log
        else fold (\<lambda>c. appended fs (Some c)) (children n) log)"
proof (cases n)
  case (HtmlNode a cs)
  show ?thesis
    unfolding HtmlNode by (subst appended.simps(2)) (simp add: Let_def)
qed

lemma discovered_fun: "discovered ps = (\<lambda>c. appended (map Some ps) (Some c) [])"
  by (rule ext) (simp add: discovered_def)

lemma appended_step:
  assumes "\<And>c qs r. c \<in> set (children n) \<Longrightarrow>
             appended (map Some qs) (Some c) r = r @ appended (map Some qs) (Some c) []"
  shows "appended (Some p # map Some ps) (Some n) log =
           log @ first_found p ps n @ concat (map (discovered (p # ps)) (children n))"
proof -
  let ?log1 = "if \<not> p n then log
               else if map Some ps = [] then appended [] (Some n) log
               else fold (\<lambda>c. appended (map Some ps) (Some c)) (children n) log"
  have "fold (\<lambda>c. appended (map Some ps) (Some c)) (children n) log
      = log @ concat (map (\<lambda>c. appended (map Some ps) (Some c) []) (children n))"
    by (rule fold_append_results) (rule assms)
  then have log1: "?log1 = log @ first_found p ps n"
    by (simp add: first_found_def appended_nil_chain discovered_fun)
  have kids: "\<And>c r. c \<in> set (children n) \<Longrightarrow>
      appended (Some p # map Some ps) (Some c) r
        = r @ appended (Some p # map Some ps) (Some c) []"
    by (rule assms [of _ "p # ps", unfolded list.map])
  have "appended (Some p # map Some ps) (Some n) log
      = fold (\<lambda>c. appended (Some p # map Some ps) (Some c)) (children n) ?log1"
    by (subst appended_cons_chain) simp
  also have "\<dots> = ?log1
      @ concat (map (\<lambda>c. appended (Some p # map Some ps) (Some c) []) (children n))"
    by (rule fold_append_results) (rule kids)
  finally show ?thesis by (simp add: log1 discovered_fun)
qed

lemma appended_append:
  "appended (map Some ps) (Some n) log = log @ appended (map Some ps) (Some n) []"
proof (induction n arbitrary: ps log)
  case (HtmlNode a cs)
  show ?case
  proof (cases ps)
    case Nil
    then show ?thesis by (simp add: appended_nil_chain)
  next
    case (Cons p ps')
    have kids: "\<And>c qs r. c \<in> set (children (HtmlNode a cs)) \<Longrightarrow>
        appended (map Some qs) (Some c) r = r @ appended (map Some qs) (Some c) []"
      by (rule HtmlNode.IH) simp
    have s: "\<And>log. appended (Some p # map Some ps') (Some (HtmlNode a cs)) log =
        log @ first_found p ps' (HtmlNode a cs)
          @ concat (map (discovered (p # ps')) (children (HtmlNode a cs)))"
      by (rule appended_step) (rule kids)
    show ?thesis
      unfolding Cons list.map by (simp only: s append_Nil)
  qed
qed

lemma discovered_Nil: "discovered [] n = [n]"
  by (simp add: discovered_def appended_nil_chain)

lemma discovered_Cons:
  "discovered (p # ps) n =
     first_found p ps n @ concat (map (discovered (p # ps)) (children n))"
proof -
  have "appended (Some p # map Some ps) (Some n) [] =
      [] @ first_found p ps n @ concat (map (discovered (p # ps)) (children n))"
    by (rule appended_step) (rule appended_append)
  then show ?thesis
    unfolding discovered_def [of "p # ps" n] list.map by simp
qed

lemma discovered_subset: "set (discovered ps n) \<subseteq> set (nodes n)"
proof (induction n arbitrary: ps)
  case (HtmlNode a cs)
  show ?case
  proof (cases ps)
    case Nil
    then show ?thesis by (simp add: discovered_Nil)
  next
    case (Cons p ps')
    have "set (first_found p ps' (HtmlNode a cs)) \<subseteq> set (nodes (HtmlNode a cs))"
      using HtmlNode.IH by (auto simp: first_found_def)
    moreover have "set (concat (map (discovered (p # ps')) cs)) \<subseteq> set (nodes (HtmlNode a cs))"
      using HtmlNode.IH by auto
    ultimately show ?thesis
      unfolding Cons by (subst discovered_Cons) auto
  qed
qed

lemma first_occurrences_addrs: "addr ` set (first_occurrences xs) = addr ` set xs"
proof (induction xs)
  case Nil
  show ?case by simp
next
  case (Cons x xs)
  have "addr ` set (first_occurrences (x # xs))
      = insert (addr x) (addr ` {y \<in> set (first_occurrences xs). addr y \<noteq> addr x})"
    by simp
  also have "\<dots> = insert (addr x) (addr ` set (first_occurrences xs))"
    by auto
  finally show ?case by (simp add: Cons.IH)
qed

lemma first_occurrences_append:
  "first_occurrences (xs @ ys) =
     first_occurrences xs @ filter (\<lambda>y. addr y \<notin> addr ` set xs) (first_occurrences ys)"
proof (induction xs)
  case Nil
  show ?case by simp
next
  case (Cons x xs)
  have "filter (\<lambda>y. addr y \<noteq> addr x) (filter (\<lambda>y. addr y \<notin> addr ` set xs) (first_occurrences ys))
      = filter (\<lambda>y. addr y \<notin> addr ` set (x # xs)) (first_occurrences ys)"
    by (auto intro: filter_cong)
  then show ?case by (simp add: Cons.IH)
qed

lemma first_occurrences_concat_children:
  assumes "distinct (map addr (concat (map nodes cs)))"
    and "\<And>c. c \<in> set cs \<Longrightarrow> set (g c) \<subseteq> set (nodes c)"
  shows "first_occurrences (concat (map g cs)) = concat (map (\<lambda>c. first_occurrences (g c)) cs)"
  using assms
proof (induction cs)
  case Nil
  show ?case by simp
next
  case (Cons c cs)
  have d: "distinct (map addr (concat (map nodes cs)))"
    and disj: "addr ` set (nodes c) \<inter> addr ` set (concat (map nodes cs)) = {}"
    using Cons.prems(1) by simp_all
  have rest: "first_occurrences (concat (map g cs))
      = concat (map (\<lambda>c. first_occurrences (g c)) cs)"
    by (rule Cons.IH) (use d Cons.prems in simp_all)
  have sub: "set (concat (map g cs)) \<subseteq> set (concat (map nodes cs))"
    using Cons.prems(2) by fastforce
  have gc: "set (g c) \<subseteq> set (nodes c)" by (rule Cons.prems(2)) simp
  have "addr ` set (g c) \<inter> addr ` set (first_occurrences (concat (map g cs))) = {}"
    unfolding first_occurrences_addrs using sub gc disj by blast
  then have "filter (\<lambda>y. addr y \<notin> addr ` set (g c)) (first_occurrences (concat (map g cs)))
      = first_occurrences (concat (map g cs))"
    by (intro filter_True) blast
  then show ?case
    by (simp add: first_occurrences_append rest)
qed

lemma collect_all_first_occurrences:
  "distinct (map addr (nodes n)) \<Longrightarrow> collect_all ps n = first_occurrences (discovered ps n)"
proof (induction n arbitrary: ps)
  case (HtmlNode a cs)
  let ?n = "HtmlNode a cs"
  have kids: "distinct (map addr (concat (map nodes cs)))"
    using distinct_children [OF HtmlNode.prems] by simp
  have kid: "\<And>c qs. c \<in> set cs \<Longrightarrow> first_occurrences (discovered qs c) = collect_all qs c"
    by (rule HtmlNode.IH [symmetric], assumption, rule distinct_child [OF HtmlNode.prems]) simp
  have conc: "\<And>qs. first_occurrences (concat (map (discovered qs) cs))
      = concat (map (collect_all qs) cs)"
  proof -
    fix qs
    have "first_occurrences (concat (map (discovered qs) cs))
        = concat (map (\<lambda>c. first_occurrences (discovered qs c)) cs)"
      by (rule first_occurrences_concat_children [OF kids]) (rule discovered_subset)
    also have "\<dots> = concat (map (collect_all qs) cs)"
      by (simp add: kid cong: map_cong)
    finally show "first_occurrences (concat (map (discovered qs) cs))
        = concat (map (collect_all qs) cs)" .
  qed
  show ?case
  proof (cases ps)
    case Nil
    then show ?thesis by (simp add: collect_all_Nil discovered_Nil)
  next
    case (Cons p ps')
    have A: "first_occurrences (first_found p ps' ?n) = first_step p ps' ?n"
      by (simp add: first_found_def first_step_def conc)
    have addrs: "addr ` set (first_found p ps' ?n) = addr ` set (first_step p ps' ?n)"
      unfolding A [symmetric] by (rule first_occurrences_addrs [symmetric])
    have "first_occurrences (discovered (p # ps') ?n)
        = first_step p ps' ?n
          @ filter (\<lambda>y. addr y \<notin> addr ` set (first_step p ps' ?n))
              (concat (map (collect_all (p # ps')) cs))"
      by (subst discovered_Cons) (simp only: first_occurrences_append A addrs conc html_Node.sel)
    also have "\<dots> = collect_all (p # ps') ?n"
      by (subst collect_all_Cons) simp
    finally show ?thesis unfolding Cons by simp
  qed
qed

subsection \<open>Chains of matches and results\<close>

lemma is_chain_nonempty: "is_chain (p # ps) ms \<Longrightarrow> ms \<noteq> []"
  by (cases ms) simp_all

lemma chain_to_single: "chain_to [p] t n = (n \<in> set (nodes t) \<and> p n)"
proof
  assume "chain_to [p] t n"
  then obtain ms where ms: "is_chain [p] ms" "hd ms \<in> set (nodes t)" "last ms = n"
    unfolding chain_to_def by blast
  then obtain m where "ms = [m]" by (cases ms) auto
  with ms show "n \<in> set (nodes t) \<and> p n" by simp
next
  assume "n \<in> set (nodes t) \<and> p n"
  then have "is_chain [p] [n] \<and> hd [n] \<in> set (nodes t) \<and> last [n] = n" by simp
  then show "chain_to [p] t n" unfolding chain_to_def by blast
qed

lemma chain_to_step:
  "chain_to (p # q # ps) t n =
     ((p t \<and> (\<exists>c \<in> set (children t). chain_to (q # ps) c n))
      \<or> (\<exists>c \<in> set (children t). chain_to (p # q # ps) c n))"
proof
  assume "chain_to (p # q # ps) t n"
  then obtain ms where ms: "is_chain (p # q # ps) ms" "hd ms \<in> set (nodes t)" "last ms = n"
    unfolding chain_to_def by blast
  then obtain m ms' where cons: "ms = m # ms'" by (cases ms) auto
  from ms(1) cons have ms': "p m" "is_chain (q # ps) ms'" by simp_all
  then obtain m' ms'' where cons': "ms' = m' # ms''" by (cases ms') auto
  from ms(1) cons cons' have below: "m' \<in> set (proper_descendants m)" by simp
  from ms(2) cons have "m = t \<or> (\<exists>c \<in> set (children t). m \<in> set (nodes c))"
    by (simp add: set_nodes [of t])
  then show "(p t \<and> (\<exists>c \<in> set (children t). chain_to (q # ps) c n))
      \<or> (\<exists>c \<in> set (children t). chain_to (p # q # ps) c n)"
  proof
    assume mt: "m = t"
    from below obtain c where c: "c \<in> set (children t)" "m' \<in> set (nodes c)"
      unfolding mt proper_descendants_def by auto
    have "is_chain (q # ps) ms' \<and> hd ms' \<in> set (nodes c) \<and> last ms' = n"
      using ms' ms(3) c cons cons' by simp
    then have "chain_to (q # ps) c n" unfolding chain_to_def by blast
    with c ms' mt show ?thesis by blast
  next
    assume "\<exists>c \<in> set (children t). m \<in> set (nodes c)"
    then obtain c where c: "c \<in> set (children t)" "m \<in> set (nodes c)" by blast
    have "is_chain (p # q # ps) ms \<and> hd ms \<in> set (nodes c) \<and> last ms = n"
      using ms c cons by simp
    then have "chain_to (p # q # ps) c n" unfolding chain_to_def by blast
    with c show ?thesis by blast
  qed
next
  assume "(p t \<and> (\<exists>c \<in> set (children t). chain_to (q # ps) c n))
      \<or> (\<exists>c \<in> set (children t). chain_to (p # q # ps) c n)"
  then show "chain_to (p # q # ps) t n"
  proof
    assume a: "p t \<and> (\<exists>c \<in> set (children t). chain_to (q # ps) c n)"
    then obtain c ms where c: "c \<in> set (children t)"
      and ms: "is_chain (q # ps) ms" "hd ms \<in> set (nodes c)" "last ms = n"
      unfolding chain_to_def by blast
    then obtain m' ms' where cons: "ms = m' # ms'" by (cases ms) auto
    have "m' \<in> set (proper_descendants t)"
      using c ms(2) cons unfolding proper_descendants_def by auto
    then have "is_chain (p # q # ps) (t # ms) \<and> hd (t # ms) \<in> set (nodes t)
        \<and> last (t # ms) = n"
      using a ms cons by (simp add: self_in_nodes)
    then show ?thesis unfolding chain_to_def by blast
  next
    assume "\<exists>c \<in> set (children t). chain_to (p # q # ps) c n"
    then obtain c ms where c: "c \<in> set (children t)"
      and ms: "is_chain (p # q # ps) ms" "hd ms \<in> set (nodes c)" "last ms = n"
      unfolding chain_to_def by blast
    from c ms(2) have "hd ms \<in> set (nodes t)"
      using child_nodes_subset by blast
    with ms show ?thesis unfolding chain_to_def by blast
  qed
qed

lemma set_collect_all_Cons:
  assumes "distinct (map addr (nodes n))"
  shows "set (collect_all (p # ps) n) =
     set (first_step p ps n) \<union> (\<Union>c \<in> set (children n). set (collect_all (p # ps) c))"
proof -
  let ?A = "first_step p ps n"
  let ?B = "concat (map (collect_all (p # ps)) (children n))"
  have kid: "\<And>c qs x. c \<in> set (children n) \<Longrightarrow> x \<in> set (collect_all qs c)
      \<Longrightarrow> x \<in> set (nodes n)"
    using collect_all_subset child_nodes_subset by blast
  have A: "set ?A \<subseteq> set (nodes n)"
  proof
    fix x
    assume "x \<in> set ?A"
    then consider "x = n" | c where "c \<in> set (children n)" "x \<in> set (collect_all ps c)"
      by (auto simp: first_step_def split: if_splits)
    then show "x \<in> set (nodes n)"
      by cases (simp_all add: self_in_nodes kid)
  qed
  have B: "set ?B \<subseteq> set (nodes n)"
    using kid by auto
  have "\<And>x. x \<in> set ?B \<Longrightarrow> (addr x \<notin> addr ` set ?A) = (x \<notin> set ?A)"
    using A B addr_inj [OF assms] by blast
  then have "filter (\<lambda>x. addr x \<notin> addr ` set ?A) ?B = filter (\<lambda>x. x \<notin> set ?A) ?B"
    by (intro filter_cong) simp_all
  then have "set (collect_all (p # ps) n) = set ?A \<union> set (filter (\<lambda>x. x \<notin> set ?A) ?B)"
    by (subst collect_all_Cons) simp
  also have "\<dots> = set ?A \<union> set ?B" by auto
  finally show ?thesis by simp
qed

lemma collect_all_chain:
  "distinct (map addr (nodes t)) \<Longrightarrow> ps \<noteq> [] \<Longrightarrow>
   (n \<in> set (collect_all ps t)) = chain_to ps t n"
proof (induction t arbitrary: ps n)
  case (HtmlNode a cs)
  let ?t = "HtmlNode a cs"
  have kid: "\<And>c qs m. c \<in> set cs \<Longrightarrow> qs \<noteq> [] \<Longrightarrow>
      (m \<in> set (collect_all qs c)) = chain_to qs c m"
    by (rule HtmlNode.IH, assumption, rule distinct_child [OF HtmlNode.prems(1)]) simp_all
  from HtmlNode.prems(2) obtain p ps' where ps: "ps = p # ps'" by (cases ps) auto
  have step: "(n \<in> set (collect_all (p # ps') ?t)) =
      (n \<in> set (first_step p ps' ?t) \<or> (\<exists>c \<in> set cs. chain_to (p # ps') c n))"
    by (subst set_collect_all_Cons [OF HtmlNode.prems(1)]) (simp add: kid)
  show ?case
  proof (cases ps')
    case Nil
    have "(n \<in> set (collect_all [p] ?t)) = ((p ?t \<and> n = ?t) \<or> (\<exists>c \<in> set cs. chain_to [p] c n))"
      using step unfolding Nil by (auto simp: first_step_def)
    also have "\<dots> = (n \<in> set (nodes ?t) \<and> p n)"
      by (subst set_nodes) (auto simp: chain_to_single)
    finally show ?thesis unfolding ps Nil by (simp only: chain_to_single)
  next
    case (Cons q qs)
    have "(n \<in> set (first_step p (q # qs) ?t)) = (p ?t \<and> (\<exists>c \<in> set cs. chain_to (q # qs) c n))"
      by (auto simp: first_step_def kid)
    then show ?thesis
      unfolding ps Cons using step [unfolded Cons] by (subst chain_to_step) simp
  qed
qed

section \<open>Absent filters\<close>

lemma copyValidFilters_filter: "copyValidFilters fs = filter (\<lambda>f. f \<noteq> None) fs"
  by (induction fs) auto

text \<open>
  C9. For every start pointer, every mode and every chain, the traversal over the chain
  gives the same result as the traversal over the chain with the absent filters removed.
\<close>

theorem filterNodes_skips_nil_filters:
  "filterNodes (config\<lparr>Filters := filter (\<lambda>f. f \<noteq> None) (Filters config)\<rparr>)
     = filterNodes config"
  by (simp add: filterNodes_def copyValidFilters_filter)

section \<open>Absent nodes\<close>

text \<open>
  C5. For every chain and every mode the traversal from a \<^verbatim>\<open>nil\<close> start returns the empty
  slice, and each of the five navigation methods maps a handle whose \<^verbatim>\<open>Data\<close> is \<^verbatim>\<open>nil\<close>
  to a handle whose \<^verbatim>\<open>Data\<close> is \<^verbatim>\<open>nil\<close>. Every function here is total, so none fails.
\<close>

theorem absent_start_and_absent_handle:
  "filterNodes \<lparr>Node = None, Filters = fs, Find = fnd\<rparr> = []
   \<and> Data (Node_Parent h (MkNode None d m)) = None
   \<and> Data (Node_FirstChild h (MkNode None d m)) = None
   \<and> Data (Node_LastChild h (MkNode None d m)) = None
   \<and> Data (Node_PrevSibling h (MkNode None d m)) = None
   \<and> Data (Node_NextSibling h (MkNode None d m)) = None"
  by (simp add: filterNodes_def Node_Parent_def Node_FirstChild_def Node_LastChild_def
      Node_PrevSibling_def Node_NextSibling_def)

section \<open>Depth\<close>

text \<open>
  C8. For every handle, present or absent, the first child's parent has the handle's
  depth; \<^verbatim>\<open>FirstChild\<close> and \<^verbatim>\<open>LastChild\<close> add one to \<^verbatim>\<open>Depth\<close>, \<^verbatim>\<open>Parent\<close> takes one away,
  \<^verbatim>\<open>PrevSibling\<close> and \<^verbatim>\<open>NextSibling\<close> leave it as it is (in Go's \<^verbatim>\<open>int\<close> arithmetic); on an
  absent handle the depth changes all the same and \<^verbatim>\<open>Data\<close> stays \<^verbatim>\<open>nil\<close>.
\<close>

theorem depth_bookkeeping:
  "Depth (Node_Parent h (Node_FirstChild h n)) = Depth n
   \<and> Depth (Node_FirstChild h n) = Depth n + 1
   \<and> Depth (Node_LastChild h n) = Depth n + 1
   \<and> Depth (Node_Parent h n) = Depth n - 1
   \<and> Depth (Node_PrevSibling h n) = Depth n
   \<and> Depth (Node_NextSibling h n) = Depth n
   \<and> Node_FirstChild h (MkNode None d m) = MkNode None (d + 1) m
   \<and> Node_LastChild h (MkNode None d m) = MkNode None (d + 1) m
   \<and> Node_Parent h (MkNode None d m) = MkNode None (d - 1) m
   \<and> Node_PrevSibling h (MkNode None d m) = MkNode None d m
   \<and> Node_NextSibling h (MkNode None d m) = MkNode None d m"
  by (simp add: Node_Parent_def Node_FirstChild_def Node_LastChild_def Node_PrevSibling_def
      Node_NextSibling_def)

text \<open>
  C7, as stated: \<^verbatim>\<open>MatchDepth\<close> is 0 when \<^verbatim>\<open>Match\<close> is \<^verbatim>\<open>nil\<close>. It fails for the handle
  \<^verbatim>\<open>Node{Depth: 3}\<close>, whose match depth is 3.
\<close>

theorem MatchDepth_absent_counterexample:
  "Node_MatchDepth (MkNode (None :: nat option) 3 None) = 3
   \<and> Node_MatchDepth (MkNode (None :: nat option) 3 None) \<noteq> 0"
  by (simp add: Node_MatchDepth_def)

text \<open>
  C7, amended. \<^verbatim>\<open>MatchDepth\<close> is the handle's depth minus the depth of \<^verbatim>\<open>Match\<close> when
  \<^verbatim>\<open>Match\<close> is present, and the handle's own depth when \<^verbatim>\<open>Match\<close> is \<^verbatim>\<open>nil\<close>.
\<close>

theorem MatchDepth_value:
  "Node_MatchDepth (MkNode d k (Some m)) = k - Depth m
   \<and> Node_MatchDepth (MkNode d k None) = k"
  by (simp add: Node_MatchDepth_def)

section \<open>Attributes\<close>

text \<open>
  C10. For every handle, namespace and key, \<^verbatim>\<open>GetAttrVal\<close> gives the same result for any
  two attribute lists passed as its last argument: it looks the key up in the handle's
  own attributes.
\<close>

theorem GetAttrVal_ignores_attributes:
  "Node_GetAttrVal getAttrVal h n namespace key attributes1
     = Node_GetAttrVal getAttrVal h n namespace key attributes2
   \<and> Node_GetAttrVal getAttrVal h n namespace key attributes1
     = getAttrVal namespace key (Node_Attr h n)"
  by (simp add: Node_GetAttrVal_def)

section \<open>The empty chain\<close>

text \<open>
  C4, as stated: with no filters the traversal returns every node below the start. It
  fails on a node with one child: the child is not returned.
\<close>

theorem empty_chain_counterexample:
  "filterNodes \<lparr>Node = Some (HtmlNode 1 [HtmlNode 2 []]), Filters = [], Find = False\<rparr>
     = [HtmlNode 1 [HtmlNode 2 []]]
   \<and> HtmlNode 2 [] \<in> set (nodes (HtmlNode 1 [HtmlNode 2 []]))
   \<and> HtmlNode 2 [] \<notin> set (filterNodes
        \<lparr>Node = Some (HtmlNode 1 [HtmlNode 2 []]), Filters = [], Find = False\<rparr>)"
  by (simp add: filterNodes_def)

text \<open>
  C4, amended. With no filters the traversal from a present start returns the start node
  and nothing else, in either mode.
\<close>

theorem empty_chain_returns_start:
  "filterNodes \<lparr>Node = Some n, Filters = [], Find = fnd\<rparr> = [n]"
  by (cases n) (simp add: filterNodes_def)

section \<open>The two modes\<close>

text \<open>
  C3. For every start pointer and every chain, the traversal in find mode returns at most
  one node; what it returns is the first node of what the collect-all traversal returns
  for the same start and chain, and it returns nothing only when the collect-all
  traversal returns nothing.
\<close>

theorem find_first_is_head_of_collect_all:
  "length (filterNodes (config\<lparr>Find := True\<rparr>)) \<le> 1
   \<and> filterNodes (config\<lparr>Find := True\<rparr>) = take 1 (filterNodes (config\<lparr>Find := False\<rparr>))
   \<and> (filterNodes (config\<lparr>Find := True\<rparr>) = [])
       = (filterNodes (config\<lparr>Find := False\<rparr>) = [])"
proof -
  have eq: "filterNodes (config\<lparr>Find := True\<rparr>)
      = take 1 (filterNodes (config\<lparr>Find := False\<rparr>))"
  proof (cases "Node config")
    case None
    then show ?thesis by (simp add: filterNodes_def)
  next
    case (Some n)
    define ps where "ps = map the (copyValidFilters (Filters config))"
    have valid: "copyValidFilters (Filters config) = map Some ps"
      unfolding ps_def by (rule copyValidFilters_valid)
    have "fn True (map Some ps) (Some n) [] = take 1 (fn False (map Some ps) (Some n) [])"
      by (simp add: fn_find collect_all_def del: fn.simps)
    then show ?thesis
      by (simp add: filterNodes_def Some valid del: fn.simps)
  qed
  show ?thesis
    unfolding eq by (cases "filterNodes (config\<lparr>Find := False\<rparr>)") simp_all
qed

section \<open>No node twice\<close>

text \<open>
  C1. In a tree (its nodes have distinct addresses) the collect-all traversal returns no
  node twice, whatever the chain: its result is the sequence of discovered nodes with
  every occurrence after the first left out, so each discovered node stays at its first
  discovery and the nodes stay in the order of their first discovery.
\<close>

theorem collect_all_no_duplicates:
  assumes "distinct (map addr (nodes n))"
  shows "distinct (map addr (filterNodes \<lparr>Node = Some n, Filters = fs, Find = False\<rparr>))
    \<and> filterNodes \<lparr>Node = Some n, Filters = fs, Find = False\<rparr>
        = first_occurrences (appended (copyValidFilters fs) (Some n) [])"
proof -
  define ps where "ps = map the (copyValidFilters fs)"
  have valid: "copyValidFilters fs = map Some ps"
    unfolding ps_def by (rule copyValidFilters_valid)
  have eq: "filterNodes \<lparr>Node = Some n, Filters = fs, Find = False\<rparr> = collect_all ps n"
    by (rule filterNodes_collect_all [OF valid])
  have "distinct (map addr (collect_all ps n))"
    using assms by (rule collect_all_distinct)
  moreover have "collect_all ps n = first_occurrences (discovered ps n)"
    using assms by (rule collect_all_first_occurrences)
  ultimately show ?thesis
    unfolding eq valid discovered_def by simp
qed

text \<open>
  An instance: below node 1 lies node 2 and below that node 3; the chain is (1 or 2),
  then 3. Node 3 is discovered twice, once for each start of the chain, and returned once.
\<close>

theorem collect_all_no_duplicates_witness:
  "distinct (map addr (nodes (HtmlNode 1 [HtmlNode 2 [HtmlNode 3 []]])))
   \<and> distinct (map addr (filterNodes
        \<lparr>Node = Some (HtmlNode 1 [HtmlNode 2 [HtmlNode 3 []]]),
         Filters = [Some (\<lambda>n. addr n = 1 \<or> addr n = 2), Some (\<lambda>n. addr n = 3)],
         Find = False\<rparr>))
   \<and> filterNodes
        \<lparr>Node = Some (HtmlNode 1 [HtmlNode 2 [HtmlNode 3 []]]),
         Filters = [Some (\<lambda>n. addr n = 1 \<or> addr n = 2), Some (\<lambda>n. addr n = 3)],
         Find = False\<rparr>
       = first_occurrences (appended
           (copyValidFilters [Some (\<lambda>n. addr n = 1 \<or> addr n = 2), Some (\<lambda>n. addr n = 3)])
           (Some (HtmlNode 1 [HtmlNode 2 [HtmlNode 3 []]])) [])
   \<and> appended
        (copyValidFilters [Some (\<lambda>n. addr n = 1 \<or> addr n = 2), Some (\<lambda>n. addr n = 3)])
        (Some (HtmlNode 1 [HtmlNode 2 [HtmlNode 3 []]])) []
       = [HtmlNode 3 [], HtmlNode 3 []]
   \<and> filterNodes
        \<lparr>Node = Some (HtmlNode 1 [HtmlNode 2 [HtmlNode 3 []]]),
         Filters = [Some (\<lambda>n. addr n = 1 \<or> addr n = 2), Some (\<lambda>n. addr n = 3)],
         Find = False\<rparr>
       = [HtmlNode 3 []]"
proof -
  have h: "distinct (map addr (nodes (HtmlNode 1 [HtmlNode 2 [HtmlNode 3 []]])))"
    by simp
  have log: "appended
        (copyValidFilters [Some (\<lambda>n. addr n = 1 \<or> addr n = 2), Some (\<lambda>n. addr n = 3)])
        (Some (HtmlNode 1 [HtmlNode 2 [HtmlNode 3 []]])) []
       = [HtmlNode 3 [], HtmlNode 3 []]"
    by (simp add: appended.simps)
  have res: "filterNodes
        \<lparr>Node = Some (HtmlNode 1 [HtmlNode 2 [HtmlNode 3 []]]),
         Filters = [Some (\<lambda>n. addr n = 1 \<or> addr n = 2), Some (\<lambda>n. addr n = 3)],
         Find = False\<rparr>
       = [HtmlNode 3 []]"
    by (simp add: filterNodes_def remove_found.simps remove_at_j.simps)
  show ?thesis
    using h log res collect_all_no_duplicates [OF h] by blast
qed

section \<open>Chains of matches\<close>

text \<open>
  C2. In a tree, for a chain whose present filters are \<open>p1, ..., pk\<close> with \<open>k > 0\<close>, a node
  \<open>n\<close> is among the results of the collect-all traversal from \<open>start\<close> exactly when there
  are nodes \<open>m1, ..., mk\<close> with \<open>mk = n\<close>, \<open>m1\<close> in the subtree of \<open>start\<close> (\<open>start\<close>
  included), each \<open>mi\<close> satisfying \<open>pi\<close>, and each \<open>m(i+1)\<close> strictly below \<open>mi\<close>, at any
  depth.
\<close>

theorem collect_all_matches_chains:
  assumes "distinct (map addr (nodes start))"
    and "copyValidFilters fs = map Some ps"
    and "ps \<noteq> []"
  shows "(n \<in> set (filterNodes \<lparr>Node = Some start, Filters = fs, Find = False\<rparr>))
    = (\<exists>ms. is_chain ps ms \<and> hd ms \<in> set (nodes start) \<and> last ms = n)"
  unfolding filterNodes_collect_all [OF assms(2)] collect_all_chain [OF assms(1) assms(3)]
  by (rule chain_to_def)

text \<open>
  An instance: node 3 lies two levels below node 1, the chain is (is node 1), \<^verbatim>\<open>nil\<close>,
  (is node 3).
\<close>

theorem collect_all_matches_chains_witness:
  "distinct (map addr (nodes (HtmlNode 1 [HtmlNode 2 [HtmlNode 3 []]])))
   \<and> copyValidFilters [Some (\<lambda>n. addr n = 1), None, Some (\<lambda>n. addr n = 3)]
       = map Some [\<lambda>n. addr n = 1, \<lambda>n. addr n = 3]
   \<and> [\<lambda>n. addr n = 1, \<lambda>n. addr n = (3::nat)] \<noteq> []
   \<and> (HtmlNode 3 [] \<in> set (filterNodes
         \<lparr>Node = Some (HtmlNode 1 [HtmlNode 2 [HtmlNode 3 []]]),
          Filters = [Some (\<lambda>n. addr n = 1), None, Some (\<lambda>n. addr n = 3)],
          Find = False\<rparr>))
     = (\<exists>ms. is_chain [\<lambda>n. addr n = 1, \<lambda>n. addr n = 3] ms
          \<and> hd ms \<in> set (nodes (HtmlNode 1 [HtmlNode 2 [HtmlNode 3 []]]))
          \<and> last ms = HtmlNode 3 [])"
proof -
  have h1: "distinct (map addr (nodes (HtmlNode 1 [HtmlNode 2 [HtmlNode 3 []]])))"
    by simp
  have h2: "copyValidFilters [Some (\<lambda>n. addr n = 1), None, Some (\<lambda>n. addr n = 3)]
      = map Some [\<lambda>n. addr n = 1, \<lambda>n. addr n = 3]"
    by simp
  have h3: "[\<lambda>n. addr n = 1, \<lambda>n. addr n = (3::nat)] \<noteq> []"
    by simp
  show ?thesis
    using h1 h2 h3 collect_all_matches_chains [OF h1 h2 h3] by blast
qed

section \<open>Parse\<close>




end
